theory Spec2Isabelle
  imports Complex_Main "HOL-Library.Multiset" "HOL-Library.Sublist"
begin

section \<open>The remote service as seen by the client\<close>

text \<open>
  The three client functions of \<^verbatim>\<open>main2.py\<close> (\<^verbatim>\<open>check_token_validity\<close>,
  \<^verbatim>\<open>check_server_membership\<close>, \<^verbatim>\<open>leave_server\<close>) talk to the remote API through one
  \<^verbatim>\<open>aiohttp\<close> session. The model gives each call the list of responses the session
  will deliver, in the order the requests are made. A request either yields an HTTP
  response or raises (any \<^verbatim>\<open>Exception\<close> of the transport).

  The \<^verbatim>\<open>Retry-After\<close> header is read with \<^verbatim>\<open>float(response.headers.get("Retry-After", 5))\<close>:
  the header can be absent (the default 5 is used), hold a number, or hold text on which
  \<^verbatim>\<open>float\<close> raises \<^verbatim>\<open>ValueError\<close>. The number is kept as a real; the rounding of Python
  floats is not modelled.

  The body matters for the guild list only: \<open>Some ids\<close> is a body on which
  \<^verbatim>\<open>await guilds_response.json()\<close> and the scan \<^verbatim>\<open>str(guild['id']) == str(guild_id)\<close>
  evaluate, \<open>ids\<close> being the ids as strings; \<open>None\<close> is a body on which they raise.
\<close>

datatype retry_header = NoHeader | Numeric real | NotNumeric

datatype response =
    Response (status_code: nat) (retry_after_header: retry_header) (json_body: "string list option")
  | TransportFailure

datatype endpoint = UsersMe | GuildMember | UserGuilds | GuildLeave

text \<open>What a call does besides returning: the requests it made, with what came back, and
  the \<^verbatim>\<open>asyncio.sleep\<close> calls of the rate-limit handling.\<close>

datatype net_event = Request endpoint response | Sleep real

record membership =
  valid :: bool
  in_server :: bool

text \<open>\<^verbatim>\<open>float(response.headers.get("Retry-After", 5))\<close>; \<open>None\<close> is the \<^verbatim>\<open>ValueError\<close>.\<close>

fun float_retry_after :: "retry_header \<Rightarrow> real option" where
  "float_retry_after NoHeader = Some 5"
| "float_retry_after (Numeric d) = Some d"
| "float_retry_after NotNumeric = None"

text \<open>
  A call returns \<open>Some (value, events, responses left)\<close>. It returns \<open>None\<close> when the
  responses run out while it still waits for one: the retry on status 429 has no cap, so
  a call answered by 429 forever never returns.
\<close>

fun check_token_validity :: "response list \<Rightarrow> (bool \<times> net_event list \<times> response list) option" where
  "check_token_validity [] = None"
| "check_token_validity (TransportFailure # rs) =
     Some (False, [Request UsersMe TransportFailure], rs)"
| "check_token_validity (Response st h b # rs) =
     (if st = 200 then Some (True, [Request UsersMe (Response st h b)], rs)
      else if st = 401 then Some (False, [Request UsersMe (Response st h b)], rs)
      else if st = 429 then
        (case float_retry_after h of
           None \<Rightarrow> Some (False, [Request UsersMe (Response st h b)], rs)
         | Some d \<Rightarrow>
             map_option (\<lambda>(v, ev, rest). (v, Request UsersMe (Response st h b) # Sleep d # ev, rest))
               (check_token_validity rs))
      else Some (False, [Request UsersMe (Response st h b)], rs))"

lemma check_token_validity_consumes:
  "check_token_validity rs = Some (v, ev, rest) \<Longrightarrow> length rest < length rs"
proof (induction rs arbitrary: v ev rest rule: check_token_validity.induct)
  case 1
  then show ?case by simp
next
  case (2 rs)
  then show ?case by auto
next
  case (3 st h b rs)
  then show ?case
    by (fastforce split: if_splits option.splits)
qed

text \<open>The fallback of \<^verbatim>\<open>check_server_membership\<close>: the request to
  \<^verbatim>\<open>/users/@me/guilds\<close> made when the member endpoint answers with an unexpected status.\<close>

fun guilds_fallback :: "string \<Rightarrow> net_event list \<Rightarrow> response list \<Rightarrow>
    (membership \<times> net_event list \<times> response list) option" where
  "guilds_fallback guild_id ev [] = None"
| "guilds_fallback guild_id ev (TransportFailure # rs) =
     Some (\<lparr>valid = True, in_server = False\<rparr>, ev @ [Request UserGuilds TransportFailure], rs)"
| "guilds_fallback guild_id ev (Response st h b # rs) =
     (if st = 200 then
        (case b of
           None \<Rightarrow> Some (\<lparr>valid = True, in_server = False\<rparr>, ev @ [Request UserGuilds (Response st h b)], rs)
         | Some guilds \<Rightarrow>
             if guild_id \<in> set guilds
             then Some (\<lparr>valid = True, in_server = True\<rparr>, ev @ [Request UserGuilds (Response st h b)], rs)
             else Some (\<lparr>valid = True, in_server = False\<rparr>, ev @ [Request UserGuilds (Response st h b)], rs))
      else Some (\<lparr>valid = True, in_server = False\<rparr>, ev @ [Request UserGuilds (Response st h b)], rs))"

function check_server_membership :: "string \<Rightarrow> response list \<Rightarrow>
    (membership \<times> net_event list \<times> response list) option" where
  "check_server_membership guild_id rs =
     (case check_token_validity rs of
        None \<Rightarrow> None
      | Some (ok, ev, rest) \<Rightarrow>
          if \<not> ok then Some (\<lparr>valid = False, in_server = False\<rparr>, ev, rest)
          else
            (case rest of
               [] \<Rightarrow> None
             | TransportFailure # rest' \<Rightarrow>
                 Some (\<lparr>valid = True, in_server = False\<rparr>, ev @ [Request GuildMember TransportFailure], rest')
             | Response st h b # rest' \<Rightarrow>
                 if st = 200 then
                   Some (\<lparr>valid = True, in_server = True\<rparr>, ev @ [Request GuildMember (Response st h b)], rest')
                 else if st = 404 then
                   Some (\<lparr>valid = True, in_server = False\<rparr>, ev @ [Request GuildMember (Response st h b)], rest')
                 else if st = 401 then
                   Some (\<lparr>valid = False, in_server = False\<rparr>, ev @ [Request GuildMember (Response st h b)], rest')
                 else if st = 429 then
                   (case float_retry_after h of
                      None \<Rightarrow>
                        Some (\<lparr>valid = True, in_server = False\<rparr>, ev @ [Request GuildMember (Response st h b)], rest')
                    | Some d \<Rightarrow>
                        map_option
                          (\<lambda>(m, ev', rest''). (m, ev @ Request GuildMember (Response st h b) # Sleep d # ev', rest''))
                          (check_server_membership guild_id rest'))
                 else guilds_fallback guild_id (ev @ [Request GuildMember (Response st h b)]) rest'))"
  by pat_completeness auto
termination
proof (relation "measure (\<lambda>(g, rs). length rs)")
  show "wf (measure (\<lambda>(g, rs). length rs))" by simp
next
  fix guild_id :: string and rs x2 and x y ev rest
    and r :: response and rest' st h b d
  assume "check_token_validity rs = Some x2" "(x, y) = x2" "(ev, rest) = y"
    and "rest = r # rest'"
  then have "check_token_validity rs = Some (x, ev, r # rest')" by simp
  from check_token_validity_consumes[OF this]
  show "((guild_id, rest'), guild_id, rs) \<in> measure (\<lambda>(g, rs). length rs)" by simp
qed

declare check_server_membership.simps [simp del]

fun leave_server :: "response list \<Rightarrow> (bool \<times> net_event list \<times> response list) option" where
  "leave_server [] = None"
| "leave_server (TransportFailure # rs) =
     Some (False, [Request GuildLeave TransportFailure], rs)"
| "leave_server (Response st h b # rs) =
     (if st = 204 then Some (True, [Request GuildLeave (Response st h b)], rs)
      else if st = 404 then Some (True, [Request GuildLeave (Response st h b)], rs)
      else if st = 429 then
        (case float_retry_after h of
           None \<Rightarrow> Some (False, [Request GuildLeave (Response st h b)], rs)
         | Some d \<Rightarrow>
             map_option (\<lambda>(v, ev, rest). (v, Request GuildLeave (Response st h b) # Sleep d # ev, rest))
               (leave_server rs))
      else Some (False, [Request GuildLeave (Response st h b)], rs))"


section \<open>The validation pass\<close>

text \<open>
  A credential is the pair \<^verbatim>\<open>(nama_token, token)\<close>. \<^verbatim>\<open>validate_tokens\<close> opens one session per
  credential, through the proxy \<^verbatim>\<open>proxies[i % len(proxies)] if proxies else None\<close>. The
  network is a parameter: \<open>net i proxy\<close> is the list of responses the session of the
  \<open>i\<close>-th credential receives through that proxy.
\<close>

type_synonym name = string
type_synonym credential = "name \<times> string"
type_synonym network = "nat \<Rightarrow> string option \<Rightarrow> response list"

definition proxy_for :: "string list \<Rightarrow> nat \<Rightarrow> string option" where
  "proxy_for proxies i = (if proxies = [] then None else Some (proxies ! (i mod length proxies)))"

text \<open>The loop of \<^verbatim>\<open>validate_tokens\<close>, with its index and the two lists it appends to.\<close>

fun validate_loop :: "network \<Rightarrow> string list \<Rightarrow> nat \<Rightarrow> credential list \<Rightarrow>
    credential list \<Rightarrow> credential list \<Rightarrow> (credential list \<times> credential list) option" where
  "validate_loop net proxies i [] valid_tokens invalid_tokens = Some (valid_tokens, invalid_tokens)"
| "validate_loop net proxies i (c # cs) valid_tokens invalid_tokens =
     (case check_token_validity (net i (proxy_for proxies i)) of
        None \<Rightarrow> None
      | Some (is_valid, ev, rest) \<Rightarrow>
          if is_valid then validate_loop net proxies (Suc i) cs (valid_tokens @ [c]) invalid_tokens
          else validate_loop net proxies (Suc i) cs valid_tokens (invalid_tokens @ [c]))"

definition validate_tokens :: "network \<Rightarrow> string list \<Rightarrow> credential list \<Rightarrow> credential list option" where
  "validate_tokens net proxies tokens =
     map_option (\<lambda>(valid_tokens, invalid_tokens). valid_tokens @ invalid_tokens)
       (validate_loop net proxies 0 tokens [] [])"

text \<open>The sessions \<^verbatim>\<open>main\<close> opens for monitoring: again one per credential, the proxy
  chosen by the credential's index in \<^verbatim>\<open>all_tokens\<close>.\<close>

definition session_proxies :: "string list \<Rightarrow> credential list \<Rightarrow> (name \<times> string option) list" where
  "session_proxies proxies all_tokens =
     map (\<lambda>i. (fst (all_tokens ! i), proxy_for proxies i)) [0..<length all_tokens]"

section \<open>The pollers\<close>

text \<open>
  \<^verbatim>\<open>main\<close> starts one \<^verbatim>\<open>monitor_token\<close> task per session with \<^verbatim>\<open>asyncio.gather\<close>. All
  tasks receive the same \<^verbatim>\<open>all_tokens\<close>, \<^verbatim>\<open>initial_status\<close> and \<^verbatim>\<open>guild_id\<close>, and the same
  one-element list \<^verbatim>\<open>monitoring_active\<close>. \<^verbatim>\<open>last_status\<close>, \<^verbatim>\<open>status_messages\<close> and
  \<^verbatim>\<open>exit_success\<close> are local variables of each call.
\<close>

record monitor_config =
  all_tokens :: "credential list"
  initial_status :: "name \<rightharpoonup> membership"
  guild_id :: string

record locals =
  last_status :: membership
  status_messages :: "name \<rightharpoonup> string"
  exit_success :: "name \<rightharpoonup> bool"

text \<open>
  Where a task stands. asyncio tasks run on one thread and give up control at an
  \<^verbatim>\<open>await\<close> only, so a task is either not started, suspended at one of the three awaits of
  \<^verbatim>\<open>monitor_token\<close> (the membership check, the gather of the leave calls, the sleep of
  10 seconds), or finished. \<open>Returned None\<close> is the bare \<^verbatim>\<open>return\<close> of a skipped
  credential, \<open>Returned (Some d)\<close> is \<^verbatim>\<open>return exit_success\<close>. \<open>Crashed\<close> is an
  \<^verbatim>\<open>IndexError\<close> leaving the task.
\<close>

datatype poller =
    NotStarted
  | AwaitMembership locals
  | AwaitLeaves locals "name list"
  | Sleeping locals
  | Returned "(name \<rightharpoonup> bool) option"
  | Crashed

datatype status_text = BerhasilKeluar | TidakValid | ProsesKeluar | TidakDiServer | DiServer

text \<open>
  The observable effects, each with the index of the task that causes it:
  the log line of a skipped credential, the call of \<^verbatim>\<open>check_server_membership\<close> in the loop,
  the log line of the ban branch, the call \<^verbatim>\<open>leave_server(session, guild_id, other_nama,
  other_token)\<close> with the value \<^verbatim>\<open>monitoring_active[0]\<close> has when it is made, the assignment
  \<^verbatim>\<open>monitoring_active[0] = False\<close>, and the table a task prints (one row per credential:
  label, status text, annotation).
\<close>

datatype event =
    SkipLogged nat
  | MembershipQuery nat
  | BanDetected nat
  | LeaveCall nat name bool
  | Latch nat
  | Display nat "(name \<times> status_text \<times> string) list"

record system =
  monitoring_active :: bool
  pollers :: "poller list"
  trace :: "event list"

text \<open>\<^verbatim>\<open>initial_status.get(n, {}).get("in_server", False)\<close>\<close>

definition initially_in_server :: "monitor_config \<Rightarrow> name \<Rightarrow> bool" where
  "initially_in_server cfg n = (case initial_status cfg n of None \<Rightarrow> False | Some m \<Rightarrow> in_server m)"

text \<open>\<^verbatim>\<open>status_messages.get(n, "")\<close>\<close>

definition message_of :: "locals \<Rightarrow> name \<Rightarrow> string" where
  "message_of l n = (case status_messages l n of None \<Rightarrow> [] | Some msg \<Rightarrow> msg)"

text \<open>The labels the ban branch creates a leave task for, in the order of \<^verbatim>\<open>all_tokens\<close>.\<close>

definition leave_targets :: "monitor_config \<Rightarrow> name \<Rightarrow> name list" where
  "leave_targets cfg nama_token =
     filter (\<lambda>other_nama. other_nama \<noteq> nama_token \<and> initially_in_server cfg other_nama)
       (map fst (all_tokens cfg))"

text \<open>\<^verbatim>\<open>get_status_text\<close>; \<open>None\<close> is the empty dict \<^verbatim>\<open>initial_status.get(other_nama, {})\<close>
  gives for a label without an entry.\<close>

definition get_status_text :: "membership option \<Rightarrow> bool \<Rightarrow> bool \<Rightarrow> status_text" where
  "get_status_text token_status is_forced_leave has_exited =
     (if has_exited then BerhasilKeluar
      else if \<not> (case token_status of None \<Rightarrow> True | Some m \<Rightarrow> valid m) then TidakValid
      else if \<not> (case token_status of None \<Rightarrow> False | Some m \<Rightarrow> in_server m) then
        (if is_forced_leave then ProsesKeluar else TidakDiServer)
      else DiServer)"

definition status_display :: "monitor_config \<Rightarrow> name \<Rightarrow> membership \<Rightarrow> locals \<Rightarrow>
    (name \<times> status_text \<times> string) list" where
  "status_display cfg nama_token status l =
     map (\<lambda>(other_nama, other_token).
        let token_status = (if other_nama = nama_token then Some status else initial_status cfg other_nama);
            is_forced = (if other_nama = nama_token then False
                         else prefix ''Proses'' (message_of l other_nama));
            has_exited = (case exit_success l other_nama of None \<Rightarrow> False | Some b \<Rightarrow> b)
        in (other_nama, get_status_text token_status is_forced has_exited, message_of l other_nama))
       (all_tokens cfg)"

text \<open>The loop over \<^verbatim>\<open>enumerate(results)\<close> after the gather. The label of result \<open>i\<close> is
  \<^verbatim>\<open>[n for n, _ in all_tokens][i]\<close>; \<open>None\<close> is the \<^verbatim>\<open>IndexError\<close> of that expression.\<close>

fun record_results :: "name list \<Rightarrow> nat \<Rightarrow> bool list \<Rightarrow> locals \<Rightarrow> locals option" where
  "record_results names i [] l = Some l"
| "record_results names i (result # results) l =
     (if i < length names then
        (let other_nama = names ! i in
         record_results names (Suc i) results
           (if result then
              l\<lparr>exit_success := (exit_success l)(other_nama \<mapsto> True),
                status_messages := (status_messages l)(other_nama \<mapsto> ''Berhasil keluar dari server'')\<rparr>
            else l\<lparr>status_messages := (status_messages l)(other_nama \<mapsto> ''Gagal keluar dari server'')\<rparr>))
      else None)"

text \<open>\<^verbatim>\<open>while monitoring_active[0]: status = await check_server_membership(...)\<close>, and
  \<^verbatim>\<open>return exit_success\<close> when the condition is false.\<close>

definition loop_top :: "nat \<Rightarrow> locals \<Rightarrow> system \<Rightarrow> system" where
  "loop_top i l s =
     (if monitoring_active s then
        s\<lparr>pollers := (pollers s)[i := AwaitMembership l], trace := MembershipQuery i # trace s\<rparr>
      else s\<lparr>pollers := (pollers s)[i := Returned (Some (exit_success l))]\<rparr>)"

text \<open>The start of \<^verbatim>\<open>monitor_token\<close>, up to its first await.\<close>

definition enter :: "monitor_config \<Rightarrow> nat \<Rightarrow> name \<Rightarrow> system \<Rightarrow> system" where
  "enter cfg i nama_token s =
     (case initial_status cfg nama_token of
        None \<Rightarrow> s\<lparr>pollers := (pollers s)[i := Returned None], trace := SkipLogged i # trace s\<rparr>
      | Some m \<Rightarrow>
          if \<not> in_server m then
            s\<lparr>pollers := (pollers s)[i := Returned None], trace := SkipLogged i # trace s\<rparr>
          else loop_top i \<lparr>last_status = m, status_messages = Map.empty, exit_success = Map.empty\<rparr> s)"

text \<open>The end of a loop iteration: print the table, then \<^verbatim>\<open>await asyncio.sleep(check_interval)\<close>.\<close>

definition render :: "monitor_config \<Rightarrow> nat \<Rightarrow> name \<Rightarrow> membership \<Rightarrow> locals \<Rightarrow> system \<Rightarrow> system" where
  "render cfg i nama_token status l s =
     s\<lparr>pollers := (pollers s)[i := Sleeping l],
       trace := Display i (status_display cfg nama_token status l) # trace s\<rparr>"

text \<open>The ban branch up to \<^verbatim>\<open>await asyncio.gather(*leave_tasks, return_exceptions=True)\<close>, or,
  when \<^verbatim>\<open>leave_tasks\<close> is empty, up to the \<^verbatim>\<open>break\<close> and the return.\<close>

definition ban :: "monitor_config \<Rightarrow> nat \<Rightarrow> name \<Rightarrow> locals \<Rightarrow> system \<Rightarrow> system" where
  "ban cfg i nama_token l s =
     (let targets = leave_targets cfg nama_token;
          l' = l\<lparr>status_messages :=
                 fold (\<lambda>other_nama msgs. msgs(other_nama \<mapsto> ''Proses keluar dari server'')) targets
                   ((status_messages l)(nama_token \<mapsto> ''Banned/Kicked dari server''))\<rparr>
      in if targets \<noteq> [] then
           s\<lparr>pollers := (pollers s)[i := AwaitLeaves l' targets],
             trace := rev (map (\<lambda>other_nama. LeaveCall i other_nama (monitoring_active s)) targets)
                        @ BanDetected i # trace s\<rparr>
         else
           s\<lparr>monitoring_active := False,
             pollers := (pollers s)[i := Returned (Some (exit_success l'))],
             trace := Latch i # BanDetected i # trace s\<rparr>)"

text \<open>The loop body after the membership check has returned \<open>status\<close>.\<close>

definition loop_body :: "monitor_config \<Rightarrow> nat \<Rightarrow> name \<Rightarrow> membership \<Rightarrow> locals \<Rightarrow> system \<Rightarrow> system" where
  "loop_body cfg i nama_token status l s =
     (if status \<noteq> last_status l then
        if \<not> valid status then
          render cfg i nama_token status
            (l\<lparr>status_messages := (status_messages l)(nama_token \<mapsto> ''Token tidak valid''),
               last_status := status\<rparr>) s
        else if \<not> in_server status \<and> in_server (last_status l) then ban cfg i nama_token l s
        else render cfg i nama_token status (l\<lparr>last_status := status\<rparr>) s
      else render cfg i nama_token status l s)"

text \<open>After the gather: record the results, \<^verbatim>\<open>monitoring_active[0] = False\<close>, \<^verbatim>\<open>break\<close>,
  \<^verbatim>\<open>return exit_success\<close>.\<close>

definition after_gather :: "monitor_config \<Rightarrow> nat \<Rightarrow> locals \<Rightarrow> bool list \<Rightarrow> system \<Rightarrow> system" where
  "after_gather cfg i l results s =
     (case record_results (map fst (all_tokens cfg)) 0 results l of
        None \<Rightarrow> s\<lparr>pollers := (pollers s)[i := Crashed]\<rparr>
      | Some l' \<Rightarrow>
          s\<lparr>monitoring_active := False,
            pollers := (pollers s)[i := Returned (Some (exit_success l'))],
            trace := Latch i # trace s\<rparr>)"

text \<open>The results of the gathered leave calls, one list of responses per call; \<open>None\<close>
  while one of them has not returned.\<close>

fun leave_results :: "response list list \<Rightarrow> bool list option" where
  "leave_results [] = Some []"
| "leave_results (rs # rss) =
     (case leave_server rs of
        None \<Rightarrow> None
      | Some (ok, ev, rest) \<Rightarrow> map_option ((#) ok) (leave_results rss))"

text \<open>
  What makes a task go on: the event loop runs it (from the start, or when its sleep is
  over), its membership check returns, or its gather returns. An action that does not fit
  the state of the task is not a step (\<open>None\<close>).
\<close>

datatype action =
    Run nat
  | MembershipDone nat "response list"
  | LeavesDone nat "response list list"

fun step :: "monitor_config \<Rightarrow> action \<Rightarrow> system \<Rightarrow> system option" where
  "step cfg (Run i) s =
     (if i < length (pollers s) \<and> i < length (all_tokens cfg) then
        (case pollers s ! i of
           NotStarted \<Rightarrow> Some (enter cfg i (fst (all_tokens cfg ! i)) s)
         | Sleeping l \<Rightarrow> Some (loop_top i l s)
         | _ \<Rightarrow> None)
      else None)"
| "step cfg (MembershipDone i rs) s =
     (if i < length (pollers s) \<and> i < length (all_tokens cfg) then
        (case pollers s ! i of
           AwaitMembership l \<Rightarrow>
             (case check_server_membership (guild_id cfg) rs of
                None \<Rightarrow> None
              | Some (status, ev, rest) \<Rightarrow> Some (loop_body cfg i (fst (all_tokens cfg ! i)) status l s))
         | _ \<Rightarrow> None)
      else None)"
| "step cfg (LeavesDone i rss) s =
     (if i < length (pollers s) \<and> i < length (all_tokens cfg) then
        (case pollers s ! i of
           AwaitLeaves l targets \<Rightarrow>
             (if length rss = length targets then
                (case leave_results rss of
                   None \<Rightarrow> None
                 | Some results \<Rightarrow> Some (after_gather cfg i l results s))
              else None)
         | _ \<Rightarrow> None)
      else None)"

fun run :: "monitor_config \<Rightarrow> action list \<Rightarrow> system \<Rightarrow> system option" where
  "run cfg [] s = Some s"
| "run cfg (a # as) s = (case step cfg a s of None \<Rightarrow> None | Some s' \<Rightarrow> run cfg as s')"

text \<open>The state in which \<^verbatim>\<open>main\<close> hands the tasks to the event loop.\<close>

definition init :: "monitor_config \<Rightarrow> system" where
  "init cfg = \<lparr>monitoring_active = True,
               pollers = replicate (length (all_tokens cfg)) NotStarted,
               trace = []\<rparr>"


section \<open>The program\<close>

text \<open>
  \<^verbatim>\<open>main\<close> and the \<^verbatim>\<open>__main__\<close> block, as far as they decide how the process ends. An
  exception is a value; \<^verbatim>\<open>KeyboardInterrupt\<close> is the one exception here that is not an
  \<^verbatim>\<open>Exception\<close> (it derives from \<^verbatim>\<open>BaseException\<close>), so \<^verbatim>\<open>except Exception\<close> lets it pass.
  The messages are kept without their emoji.
\<close>

datatype exn = FileNotFoundError | ValueError string | KeyboardInterrupt | OtherException













section \<open>Notions used to state the properties\<close>

text \<open>A response that makes the client wait and call again: status 429 with a
  \<^verbatim>\<open>Retry-After\<close> header that is absent or numeric. \<open>backoff\<close> is the time it sleeps.\<close>

fun rate_limited :: "response \<Rightarrow> bool" where
  "rate_limited (Response st h b) = (st = 429 \<and> float_retry_after h \<noteq> None)"
| "rate_limited TransportFailure = False"





text \<open>Whether the validity check of the \<open>i\<close>-th credential of a validation pass returned
  \<^verbatim>\<open>True\<close>.\<close>

definition validated :: "network \<Rightarrow> string list \<Rightarrow> nat \<Rightarrow> bool" where
  "validated net proxies i =
     (case check_token_validity (net i (proxy_for proxies i)) of
        Some (True, ev, rest) \<Rightarrow> True
      | _ \<Rightarrow> False)"

text \<open>The label of the credential task \<open>i\<close> monitors.\<close>

definition label :: "monitor_config \<Rightarrow> nat \<Rightarrow> name" where
  "label cfg i = fst (all_tokens cfg ! i)"

text \<open>The labels of the leave calls in a trace, and the tasks that entered the ban
  branch, newest first like the trace.\<close>

fun leave_calls :: "event list \<Rightarrow> name list" where
  "leave_calls [] = []"
| "leave_calls (LeaveCall i n b # es) = n # leave_calls es"
| "leave_calls (e # es) = leave_calls es"


text \<open>The task that causes an event.\<close>

fun actor :: "event \<Rightarrow> nat" where
  "actor (SkipLogged i) = i"
| "actor (MembershipQuery i) = i"
| "actor (BanDetected i) = i"
| "actor (LeaveCall i n b) = i"
| "actor (Latch i) = i"
| "actor (Display i rows) = i"



text \<open>Whether a trace holds an assignment \<^verbatim>\<open>monitoring_active[0] = False\<close>.\<close>

fun latched :: "event list \<Rightarrow> bool" where
  "latched [] = False"
| "latched (Latch i # es) = True"
| "latched (e # es) = latched es"

text \<open>
  Invariants of the traces of runs, by recursion over the trace (newest event first):
  every leave call carries the flag its past determines (true until the first
  assignment), and no task has cleared the flag before one of its own leave calls.
\<close>

fun stamped :: "event list \<Rightarrow> bool" where
  "stamped [] = True"
| "stamped (LeaveCall i n b # es) = (b = (\<not> latched es) \<and> stamped es)"
| "stamped (e # es) = stamped es"

fun latch_last :: "event list \<Rightarrow> bool" where
  "latch_last [] = True"
| "latch_last (LeaveCall i n b # es) = (Latch i \<notin> set es \<and> latch_last es)"
| "latch_last (e # es) = latch_last es"

definition latch_inv :: "system \<Rightarrow> bool" where
  "latch_inv s =
     (monitoring_active s = (\<not> latched (trace s)) \<and> stamped (trace s) \<and> latch_last (trace s) \<and>
      (\<forall>i. Latch i \<in> set (trace s) \<longrightarrow> (\<exists>r. pollers s ! i = Returned r)))"






text \<open>
  Two sessions used in the examples. The first is the scenario of the specification:
  A and B are in the server at the start, C is not. In the second C comes first.
\<close>

definition scenario :: monitor_config where
  "scenario =
     \<lparr>all_tokens = [(''A'', ''ta''), (''B'', ''tb''), (''C'', ''tc'')],
      initial_status = [''A'' \<mapsto> \<lparr>valid = True, in_server = True\<rparr>,
                        ''B'' \<mapsto> \<lparr>valid = True, in_server = True\<rparr>,
                        ''C'' \<mapsto> \<lparr>valid = True, in_server = False\<rparr>],
      guild_id = ''1''\<rparr>"

definition scenario_C_first :: monitor_config where
  "scenario_C_first =
     \<lparr>all_tokens = [(''C'', ''tc''), (''A'', ''ta''), (''B'', ''tb'')],
      initial_status = [''A'' \<mapsto> \<lparr>valid = True, in_server = True\<rparr>,
                        ''B'' \<mapsto> \<lparr>valid = True, in_server = True\<rparr>,
                        ''C'' \<mapsto> \<lparr>valid = True, in_server = False\<rparr>],
      guild_id = ''1''\<rparr>"


definition removed :: "response list" where
  "removed = [Response 200 NoHeader None, Response 404 NoHeader None]"

definition left :: "response list" where
  "left = [Response 204 NoHeader None]"

section \<open>Properties of the client\<close>

subsection \<open>The cases of a membership check\<close>

lemma guilds_fallback_sound:
  "guilds_fallback g ev rs = Some (m, ev', rest) \<Longrightarrow> valid m"
  by (cases "(g, ev, rs)" rule: guilds_fallback.cases) (auto split: if_splits option.splits)

lemma csm_pending_validity:
  "check_token_validity rs = None \<Longrightarrow> check_server_membership g rs = None"
  by (subst check_server_membership.simps) simp

lemma csm_invalid:
  "check_token_validity rs = Some (False, ev, rest) \<Longrightarrow>
   check_server_membership g rs = Some (\<lparr>valid = False, in_server = False\<rparr>, ev, rest)"
  by (subst check_server_membership.simps) simp

lemma csm_pending_member:
  "check_token_validity rs = Some (True, ev, []) \<Longrightarrow> check_server_membership g rs = None"
  by (subst check_server_membership.simps) simp

lemma csm_member_failure:
  "check_token_validity rs = Some (True, ev, TransportFailure # rest) \<Longrightarrow>
   check_server_membership g rs =
     Some (\<lparr>valid = True, in_server = False\<rparr>, ev @ [Request GuildMember TransportFailure], rest)"
  by (subst check_server_membership.simps) simp

lemma csm_member_response:
  "check_token_validity rs = Some (True, ev, Response st h b # rest) \<Longrightarrow>
   check_server_membership g rs =
     (if st = 200 then
        Some (\<lparr>valid = True, in_server = True\<rparr>, ev @ [Request GuildMember (Response st h b)], rest)
      else if st = 404 then
        Some (\<lparr>valid = True, in_server = False\<rparr>, ev @ [Request GuildMember (Response st h b)], rest)
      else if st = 401 then
        Some (\<lparr>valid = False, in_server = False\<rparr>, ev @ [Request GuildMember (Response st h b)], rest)
      else if st = 429 then
        (case float_retry_after h of
           None \<Rightarrow>
             Some (\<lparr>valid = True, in_server = False\<rparr>, ev @ [Request GuildMember (Response st h b)], rest)
         | Some d \<Rightarrow>
             map_option
               (\<lambda>(m, ev', rest''). (m, ev @ Request GuildMember (Response st h b) # Sleep d # ev', rest''))
               (check_server_membership g rest))
      else guilds_fallback g (ev @ [Request GuildMember (Response st h b)]) rest)"
  by (subst check_server_membership.simps) simp


lemma csm_cases [case_names pending_validity invalid pending_member member_failure member_response]:
  obtains "check_token_validity rs = None"
  | ev rest where "check_token_validity rs = Some (False, ev, rest)"
  | ev where "check_token_validity rs = Some (True, ev, [])"
  | ev rest where "check_token_validity rs = Some (True, ev, TransportFailure # rest)"
  | ev st h b rest where "check_token_validity rs = Some (True, ev, Response st h b # rest)"
      and "length rest < length rs"
proof (cases "check_token_validity rs")
  case None
  then show ?thesis using that(1) by simp
next
  case (Some res)
  obtain ok ev rest where res: "res = (ok, ev, rest)" by (cases res)
  show ?thesis
  proof (cases ok)
    case False
    with Some res show ?thesis using that(2) by simp
  next
    case True
    have ctv: "check_token_validity rs = Some (True, ev, rest)" using Some res True by simp
    show ?thesis
    proof (cases rest)
      case Nil
      with ctv show ?thesis using that(3) by simp
    next
      case (Cons r rest1)
      have "length rest1 < length rs"
        using check_token_validity_consumes[OF ctv] Cons by simp
      with ctv Cons show ?thesis using that(4,5) by (cases r) auto
    qed
  qed
qed

text \<open>
  \<^bold>\<open>C9.\<close> Whatever \<^verbatim>\<open>check_server_membership\<close> returns, on every path (the early return
  after a failed validity check, the four answers of the member endpoint, the retry, the
  fallback to the guild list, the exception handler), a status that says "in the server"
  also says "valid": the dict \<^verbatim>\<open>{"valid": False, "in_server": True}\<close> is never returned.
\<close>

theorem membership_in_server_implies_valid:
  "check_server_membership g rs = Some (m, ev, rest) \<Longrightarrow>
     (valid m \<or> \<not> in_server m) \<and> m \<noteq> \<lparr>valid = False, in_server = True\<rparr>"
proof (induction "length rs" arbitrary: rs m ev rest rule: less_induct)
  case less
  show ?case
  proof (cases rs rule: csm_cases)
    case pending_validity
    with less.prems show ?thesis by (simp add: csm_pending_validity)
  next
    case (invalid ev0 rest0)
    with less.prems show ?thesis by (auto simp: csm_invalid)
  next
    case (pending_member ev0)
    with less.prems show ?thesis by (simp add: csm_pending_member)
  next
    case (member_failure ev0 rest0)
    with less.prems show ?thesis by (auto simp: csm_member_failure)
  next
    case (member_response ev0 st h b rest0)
    from less.prems less.hyps[OF member_response(2)] show ?thesis
      by (auto simp: csm_member_response[OF member_response(1)] split: if_splits option.splits
          dest: guilds_fallback_sound)
  qed
qed

theorem membership_in_server_implies_valid_witness:
  "check_server_membership ''1''
      [Response 200 NoHeader None, Response 500 NoHeader None, Response 200 NoHeader (Some [''7'', ''1''])]
     = Some (\<lparr>valid = True, in_server = True\<rparr>,
         [Request UsersMe (Response 200 NoHeader None), Request GuildMember (Response 500 NoHeader None),
          Request UserGuilds (Response 200 NoHeader (Some [''7'', ''1'']))], [])
   \<and> (valid \<lparr>valid = True, in_server = True\<rparr> \<or> \<not> in_server \<lparr>valid = True, in_server = True\<rparr>)
   \<and> \<lparr>valid = True, in_server = True\<rparr> \<noteq> \<lparr>valid = False, in_server = True\<rparr>"
proof -
  have run: "check_server_membership ''1''
      [Response 200 NoHeader None, Response 500 NoHeader None, Response 200 NoHeader (Some [''7'', ''1''])]
     = Some (\<lparr>valid = True, in_server = True\<rparr>,
         [Request UsersMe (Response 200 NoHeader None), Request GuildMember (Response 500 NoHeader None),
          Request UserGuilds (Response 200 NoHeader (Some [''7'', ''1'']))], [])"
    by code_simp
  show ?thesis
    using run membership_in_server_implies_valid[OF run] by simp
qed

subsection \<open>Transport failures\<close>

lemma ctv_events_endpoint:
  "check_token_validity rs = Some (v, ev, rest) \<Longrightarrow> Request e r \<in> set ev \<Longrightarrow> e = UsersMe"
proof (induction rs arbitrary: v ev rest rule: check_token_validity.induct)
  case 1
  then show ?case by simp
next
  case (2 rs)
  then show ?case by auto
next
  case (3 st h b rs)
  then show ?case
    by (fastforce split: if_splits option.splits)
qed

lemma ctv_failure_invalid:
  "check_token_validity rs = Some (v, ev, rest) \<Longrightarrow> Request e TransportFailure \<in> set ev \<Longrightarrow> \<not> v"
proof (induction rs arbitrary: v ev rest rule: check_token_validity.induct)
  case 1
  then show ?case by simp
next
  case (2 rs)
  then show ?case by auto
next
  case (3 st h b rs)
  then show ?case
    by (fastforce split: if_splits option.splits)
qed

lemma guilds_fallback_events:
  "guilds_fallback g ev rs = Some (m, ev', rest) \<Longrightarrow>
     \<exists>r. ev' = ev @ [Request UserGuilds r] \<and>
       (r = TransportFailure \<or> (\<exists>h. r = Response 200 h None) \<longrightarrow> m = \<lparr>valid = True, in_server = False\<rparr>)"
  by (cases "(g, ev, rs)" rule: guilds_fallback.cases) (auto split: if_splits option.splits)

text \<open>
  \<^bold>\<open>C4\<close> fails as stated: an exception during the validity check is caught inside
  \<^verbatim>\<open>check_token_validity\<close>, which returns \<^verbatim>\<open>False\<close>, and \<^verbatim>\<open>check_server_membership\<close> then
  reports the credential invalid.
\<close>

theorem validity_transport_failure_reports_invalid:
  "check_server_membership ''1'' [TransportFailure, Response 200 NoHeader None]
     = Some (\<lparr>valid = False, in_server = False\<rparr>, [Request UsersMe TransportFailure],
         [Response 200 NoHeader None])"
  by code_simp


lemma csm_failure:
  "check_server_membership g rs = Some (m, ev, rest) \<Longrightarrow>
     (Request UsersMe TransportFailure \<in> set ev \<longrightarrow> m = \<lparr>valid = False, in_server = False\<rparr>) \<and>
     (Request GuildMember TransportFailure \<in> set ev \<longrightarrow> m = \<lparr>valid = True, in_server = False\<rparr>) \<and>
     (Request UserGuilds TransportFailure \<in> set ev \<longrightarrow> m = \<lparr>valid = True, in_server = False\<rparr>) \<and>
     ((\<exists>h. Request UserGuilds (Response 200 h None) \<in> set ev) \<longrightarrow> m = \<lparr>valid = True, in_server = False\<rparr>)"
proof (induction "length rs" arbitrary: rs m ev rest rule: less_induct)
  case less
  show ?case
  proof (cases rs rule: csm_cases)
    case pending_validity
    with less.prems show ?thesis by (simp add: csm_pending_validity)
  next
    case (invalid ev0 rest0)
    with less.prems show ?thesis by (auto simp: csm_invalid dest: ctv_events_endpoint)
  next
    case (pending_member ev0)
    with less.prems show ?thesis by (simp add: csm_pending_member)
  next
    case (member_failure ev0 rest0)
    with less.prems show ?thesis by (auto simp: csm_member_failure dest: ctv_events_endpoint ctv_failure_invalid)
  next
    case (member_response ev0 st h b rest0)
    note ce = ctv_events_endpoint[OF member_response(1)] ctv_failure_invalid[OF member_response(1)]
    show ?thesis
    proof (cases "st = 429 \<and> float_retry_after h \<noteq> None")
      case True
      then obtain d where d: "float_retry_after h = Some d" by auto
      from less.prems True d obtain ev1 where
        rec: "check_server_membership g rest0 = Some (m, ev1, rest)"
        and ev: "ev = ev0 @ Request GuildMember (Response st h b) # Sleep d # ev1"
        by (auto simp: csm_member_response[OF member_response(1)])
      from less.hyps[OF member_response(2) rec] show ?thesis
        unfolding ev by (auto dest: ce)
    next
      case False
      show ?thesis
      proof (cases "st = 200 \<or> st = 404 \<or> st = 401 \<or> st = 429")
        case True
        with False less.prems show ?thesis
          by (auto simp: csm_member_response[OF member_response(1)] split: if_splits dest: ce)
      next
        case False
        with less.prems have "guilds_fallback g (ev0 @ [Request GuildMember (Response st h b)]) rest0 = Some (m, ev, rest)"
          by (auto simp: csm_member_response[OF member_response(1)] split: if_splits)
        from guilds_fallback_events[OF this] show ?thesis by (auto dest: ce)
      qed
    qed
  qed
qed



lemma ctv_pending_all_retries:
  "check_token_validity rs = None \<Longrightarrow> \<forall>r\<in>set rs. rate_limited r"
proof (induction rs rule: check_token_validity.induct)
  case 1
  then show ?case by simp
next
  case (2 rs)
  then show ?case by simp
next
  case (3 st h b rs)
  then show ?case by (auto split: if_splits option.splits)
qed

lemma ctv_valid_no_failure:
  "check_token_validity rs = Some (True, ev, rest) \<Longrightarrow> TransportFailure \<in> set rs \<Longrightarrow>
     TransportFailure \<in> set rest"
proof (induction rs arbitrary: ev rest rule: check_token_validity.induct)
  case 1
  then show ?case by simp
next
  case (2 rs)
  then show ?case by simp
next
  case (3 st h b rs)
  then show ?case by (fastforce split: if_splits option.splits)
qed

lemma guilds_fallback_returns:
  "rs \<noteq> [] \<Longrightarrow> guilds_fallback g ev rs \<noteq> None"
  by (cases "(g, ev, rs)" rule: guilds_fallback.cases) (auto split: option.splits)

lemma csm_failure_returns:
  "TransportFailure \<in> set rs \<Longrightarrow> check_server_membership g rs \<noteq> None"
proof (induction "length rs" arbitrary: rs rule: less_induct)
  case less
  show ?case
  proof (cases rs rule: csm_cases)
    case pending_validity
    from ctv_pending_all_retries[OF this] less.prems show ?thesis by auto
  next
    case (invalid ev0 rest0)
    then show ?thesis by (simp add: csm_invalid)
  next
    case (pending_member ev0)
    from ctv_valid_no_failure[OF this less.prems] show ?thesis by simp
  next
    case (member_failure ev0 rest0)
    then show ?thesis by (simp add: csm_member_failure)
  next
    case (member_response ev0 st h b rest0)
    from ctv_valid_no_failure[OF member_response(1) less.prems]
    have f: "TransportFailure \<in> set rest0" by simp
    then have ne: "rest0 \<noteq> []" by auto
    from less.hyps[OF member_response(2) f] guilds_fallback_returns[OF ne] show ?thesis
      by (auto simp: csm_member_response[OF member_response(1)] split: option.splits)
  qed
qed

text \<open>
  \<^bold>\<open>C4, as the code has it.\<close> A transport failure ends the call, and the call returns: no
  exception leaves \<^verbatim>\<open>check_server_membership\<close>. The status returned depends on the request
  that failed. A failure of the validity request gives \<^verbatim>\<open>{"valid": False, "in_server":
  False}\<close>; a failure of the member request, of the guild-list request of the fallback, or
  of reading the guild list gives \<^verbatim>\<open>{"valid": True, "in_server": False}\<close>.
\<close>

theorem transport_failure_outcome:
  "(TransportFailure \<in> set rs \<longrightarrow> check_server_membership g rs \<noteq> None) \<and>
   (check_server_membership g rs = Some (m, ev, rest) \<longrightarrow>
      (Request UsersMe TransportFailure \<in> set ev \<longrightarrow> m = \<lparr>valid = False, in_server = False\<rparr>) \<and>
      (Request GuildMember TransportFailure \<in> set ev \<longrightarrow> m = \<lparr>valid = True, in_server = False\<rparr>) \<and>
      (Request UserGuilds TransportFailure \<in> set ev \<longrightarrow> m = \<lparr>valid = True, in_server = False\<rparr>) \<and>
      ((\<exists>h. Request UserGuilds (Response 200 h None) \<in> set ev) \<longrightarrow>
         m = \<lparr>valid = True, in_server = False\<rparr>))"
proof (intro conjI impI)
  assume "TransportFailure \<in> set rs"
  then show "check_server_membership g rs \<noteq> None" by (rule csm_failure_returns)
next
  assume r: "check_server_membership g rs = Some (m, ev, rest)"
  {
    assume "Request UsersMe TransportFailure \<in> set ev"
    with csm_failure[OF r] show "m = \<lparr>valid = False, in_server = False\<rparr>" by blast
  next
    assume "Request GuildMember TransportFailure \<in> set ev"
    with csm_failure[OF r] show "m = \<lparr>valid = True, in_server = False\<rparr>" by blast
  next
    assume "Request UserGuilds TransportFailure \<in> set ev"
    with csm_failure[OF r] show "m = \<lparr>valid = True, in_server = False\<rparr>" by blast
  next
    assume "\<exists>h. Request UserGuilds (Response 200 h None) \<in> set ev"
    with csm_failure[OF r] show "m = \<lparr>valid = True, in_server = False\<rparr>" by blast
  }
qed

theorem transport_failure_outcome_witness:
  "TransportFailure \<in> set [Response 200 NoHeader None, TransportFailure]
   \<and> check_server_membership ''1'' [Response 200 NoHeader None, TransportFailure]
       = Some (\<lparr>valid = True, in_server = False\<rparr>,
           [Request UsersMe (Response 200 NoHeader None), Request GuildMember TransportFailure], [])
   \<and> Request GuildMember TransportFailure
       \<in> set [Request UsersMe (Response 200 NoHeader None), Request GuildMember TransportFailure]"
proof -
  have run: "check_server_membership ''1'' [Response 200 NoHeader None, TransportFailure]
       = Some (\<lparr>valid = True, in_server = False\<rparr>,
           [Request UsersMe (Response 200 NoHeader None), Request GuildMember TransportFailure], [])"
    by code_simp
  show ?thesis
    using run
      transport_failure_outcome[of "[Response 200 NoHeader None, TransportFailure]" "''1''"
        "\<lparr>valid = True, in_server = False\<rparr>"
        "[Request UsersMe (Response 200 NoHeader None), Request GuildMember TransportFailure]" "[]"]
    by simp
qed

subsection \<open>Rate limits\<close>

















section \<open>Properties of the validation pass\<close>

lemma validate_loop_result:
  "validate_loop net proxies i cs v ws = Some (v', ws') \<Longrightarrow>
     v' = v @ map snd (filter (\<lambda>(k, c). validated net proxies k) (enumerate i cs)) \<and>
     ws' = ws @ map snd (filter (\<lambda>(k, c). \<not> validated net proxies k) (enumerate i cs))"
proof (induction cs arbitrary: i v ws)
  case Nil
  then show ?case by simp
next
  case (Cons c cs)
  show ?case
  proof (cases "check_token_validity (net i (proxy_for proxies i))")
    case None
    with Cons.prems show ?thesis by simp
  next
    case (Some res)
    obtain ok ev rest where res: "res = (ok, ev, rest)" by (cases res)
    show ?thesis
    proof (cases ok)
      case True
      with Some res have val: "validated net proxies i" by (simp add: validated_def)
      from Cons.prems Some res True
      have "validate_loop net proxies (Suc i) cs (v @ [c]) ws = Some (v', ws')" by simp
      from Cons.IH[OF this] val show ?thesis by simp
    next
      case False
      with Some res have val: "\<not> validated net proxies i" by (simp add: validated_def)
      from Cons.prems Some res False
      have "validate_loop net proxies (Suc i) cs v (ws @ [c]) = Some (v', ws')" by simp
      from Cons.IH[OF this] val show ?thesis by simp
    qed
  qed
qed

lemma validate_loop_returns:
  "(validate_loop net proxies i cs v ws \<noteq> None) =
     (\<forall>k<length cs. check_token_validity (net (i + k) (proxy_for proxies (i + k))) \<noteq> None)"
proof (induction cs arbitrary: i v ws)
  case Nil
  then show ?case by simp
next
  case (Cons c cs)
  have split: "(\<forall>k<Suc (length cs). P k) = (P 0 \<and> (\<forall>k<length cs. P (Suc k)))" for P
    by (metis less_Suc_eq_0_disj)
  show ?case
  proof (cases "check_token_validity (net i (proxy_for proxies i))")
    case None
    then show ?thesis by auto
  next
    case (Some res)
    obtain ok ev rest where res: "res = (ok, ev, rest)" by (cases res)
    show ?thesis
      using Some res Cons.IH[of "Suc i"] by (simp add: split)
  qed
qed

lemma mset_partition_enumerate:
  "mset (map snd (filter P (enumerate i cs))) + mset (map snd (filter (\<lambda>x. \<not> P x) (enumerate i cs))) = mset cs"
  by (induction cs arbitrary: i) auto

text \<open>
  \<^bold>\<open>C10.\<close> \<^verbatim>\<open>validate_tokens\<close> returns when every validity check returns, and then its
  result is \<^verbatim>\<open>valid_tokens + invalid_tokens\<close>: a permutation of the input (each credential
  as often as the input has it), the credentials whose check returned \<^verbatim>\<open>True\<close> first, in
  their input order, then the others, in their input order. So the order can differ from
  the input order, and with it the proxy a credential gets from its index: the last part
  of the statement gives such an input.
\<close>

theorem validate_tokens_partition:
  "((validate_tokens net proxies tokens \<noteq> None) =
      (\<forall>i<length tokens. check_token_validity (net i (proxy_for proxies i)) \<noteq> None)) \<and>
   (validate_tokens net proxies tokens = Some out \<longrightarrow>
      mset out = mset tokens \<and>
      out = map snd (filter (\<lambda>(i, c). validated net proxies i) (enumerate 0 tokens))
          @ map snd (filter (\<lambda>(i, c). \<not> validated net proxies i) (enumerate 0 tokens))) \<and>
   (\<exists>net' proxies' tokens' out'.
      validate_tokens net' proxies' tokens' = Some out' \<and> out' \<noteq> tokens' \<and>
      session_proxies proxies' out' \<noteq> session_proxies proxies' tokens')"
proof (intro conjI)
  show "(validate_tokens net proxies tokens \<noteq> None) =
      (\<forall>i<length tokens. check_token_validity (net i (proxy_for proxies i)) \<noteq> None)"
    using validate_loop_returns[of net proxies 0 tokens "[]" "[]"]
    by (simp add: validate_tokens_def)
  show "validate_tokens net proxies tokens = Some out \<longrightarrow>
      mset out = mset tokens \<and>
      out = map snd (filter (\<lambda>(i, c). validated net proxies i) (enumerate 0 tokens))
          @ map snd (filter (\<lambda>(i, c). \<not> validated net proxies i) (enumerate 0 tokens))"
  proof
    assume "validate_tokens net proxies tokens = Some out"
    then obtain v ws where l: "validate_loop net proxies 0 tokens [] [] = Some (v, ws)"
      and o: "out = v @ ws"
      by (auto simp: validate_tokens_def)
    from validate_loop_result[OF l] o
    have eq: "out = map snd (filter (\<lambda>(i, c). validated net proxies i) (enumerate 0 tokens))
          @ map snd (filter (\<lambda>(i, c). \<not> validated net proxies i) (enumerate 0 tokens))"
      by simp
    have "mset out = mset tokens"
      unfolding eq using mset_partition_enumerate[of "\<lambda>(i, c). validated net proxies i" 0 tokens]
      by (simp add: case_prod_unfold)
    with eq show "mset out = mset tokens \<and>
      out = map snd (filter (\<lambda>(i, c). validated net proxies i) (enumerate 0 tokens))
          @ map snd (filter (\<lambda>(i, c). \<not> validated net proxies i) (enumerate 0 tokens))" by simp
  qed
  have a: "validate_tokens
        (\<lambda>i p. if i = 0 then [Response 401 NoHeader None] else [Response 200 NoHeader None])
        [''p0'', ''p1''] [(''A'', ''ta''), (''B'', ''tb'')]
      = Some [(''B'', ''tb''), (''A'', ''ta'')]"
    by code_simp
  have b: "session_proxies [''p0'', ''p1''] [(''B'', ''tb''), (''A'', ''ta'')]
      = [(''B'', Some ''p0''), (''A'', Some ''p1'')]"
    by code_simp
  have c: "session_proxies [''p0'', ''p1''] [(''A'', ''ta''), (''B'', ''tb'')]
      = [(''A'', Some ''p0''), (''B'', Some ''p1'')]"
    by code_simp
  have "[(''B'', ''tb''), (''A'', ''ta'')] \<noteq> [(''A'', ''ta''), (''B'', ''tb'')] \<and>
    session_proxies [''p0'', ''p1''] [(''B'', ''tb''), (''A'', ''ta'')]
      \<noteq> session_proxies [''p0'', ''p1''] [(''A'', ''ta''), (''B'', ''tb'')]"
    unfolding b c by simp
  with a show "\<exists>net' proxies' tokens' out'.
      validate_tokens net' proxies' tokens' = Some out' \<and> out' \<noteq> tokens' \<and>
      session_proxies proxies' out' \<noteq> session_proxies proxies' tokens'"
    by blast
qed

text \<open>Three credentials, the second of them invalid: it moves to the end.\<close>

theorem validate_tokens_partition_witness:
  "validate_tokens
      (\<lambda>i p. if i = 1 then [Response 401 NoHeader None]
              else [Response 429 NoHeader None, Response 200 NoHeader None])
      [] [(''A'', ''ta''), (''B'', ''tb''), (''C'', ''tc'')]
     = Some [(''A'', ''ta''), (''C'', ''tc''), (''B'', ''tb'')]
   \<and> mset [(''A'', ''ta''), (''C'', ''tc''), (''B'', ''tb'')]
     = mset [(''A'', ''ta''), (''B'', ''tb''), (''C'', ''tc'')]"
proof -
  have run: "validate_tokens
      (\<lambda>i p. if i = 1 then [Response 401 NoHeader None]
              else [Response 429 NoHeader None, Response 200 NoHeader None])
      [] [(''A'', ''ta''), (''B'', ''tb''), (''C'', ''tc'')]
     = Some [(''A'', ''ta''), (''C'', ''tc''), (''B'', ''tb'')]"
    by code_simp
  show ?thesis
    using run
      validate_tokens_partition[of
        "\<lambda>i p. if i = 1 then [Response 401 NoHeader None]
                else [Response 429 NoHeader None, Response 200 NoHeader None]"
        "[]" "[(''A'', ''ta''), (''B'', ''tb''), (''C'', ''tc'')]"
        "[(''A'', ''ta''), (''C'', ''tc''), (''B'', ''tb'')]"]
    by blast
qed



section \<open>Properties of the program\<close>










section \<open>Properties of the pollers\<close>

subsection \<open>The steps of a task\<close>

text \<open>
  Every step is one of eight: a task is skipped at its start; it starts a membership check;
  it finds the flag false at the loop condition and returns; it prints the table and
  sleeps; it enters the ban branch and starts the leave calls; it enters the ban branch
  with nobody to call and clears the flag at once; it clears the flag after the gather;
  or the indexing after the gather fails.
\<close>

lemma step_cases [consumes 1, case_names skip poll stop render fanout lone_latch latch crash]:
  assumes "step cfg a s = Some s'"
  obtains
    (skip) i where "i < length (pollers s)" "i < length (all_tokens cfg)"
      "pollers s ! i = NotStarted" "\<not> initially_in_server cfg (label cfg i)"
      "s' = s\<lparr>pollers := (pollers s)[i := Returned None], trace := SkipLogged i # trace s\<rparr>"
  | (poll) i l where "i < length (pollers s)" "i < length (all_tokens cfg)"
      "pollers s ! i = NotStarted \<and> initially_in_server cfg (label cfg i) \<and>
         status_messages l = Map.empty \<and> exit_success l = Map.empty
       \<or> pollers s ! i = Sleeping l"
      "monitoring_active s"
      "s' = s\<lparr>pollers := (pollers s)[i := AwaitMembership l], trace := MembershipQuery i # trace s\<rparr>"
  | (stop) i l where "i < length (pollers s)" "i < length (all_tokens cfg)"
      "pollers s ! i = NotStarted \<and> initially_in_server cfg (label cfg i) \<or> pollers s ! i = Sleeping l"
      "\<not> monitoring_active s"
      "s' = s\<lparr>pollers := (pollers s)[i := Returned (Some (exit_success l))]\<rparr>"
  | (render) i l status l' where "i < length (pollers s)" "i < length (all_tokens cfg)"
      "pollers s ! i = AwaitMembership l"
      "l' = l \<or> l' = l\<lparr>last_status := status\<rparr>
         \<or> l' = l\<lparr>status_messages := (status_messages l)(label cfg i \<mapsto> ''Token tidak valid''),
                  last_status := status\<rparr>"
      "s' = s\<lparr>pollers := (pollers s)[i := Sleeping l'],
              trace := Display i (status_display cfg (label cfg i) status l') # trace s\<rparr>"
  | (fanout) i l l' where "i < length (pollers s)" "i < length (all_tokens cfg)"
      "pollers s ! i = AwaitMembership l" "leave_targets cfg (label cfg i) \<noteq> []"
      "s' = s\<lparr>pollers := (pollers s)[i := AwaitLeaves l' (leave_targets cfg (label cfg i))],
              trace := rev (map (\<lambda>n. LeaveCall i n (monitoring_active s)) (leave_targets cfg (label cfg i)))
                        @ BanDetected i # trace s\<rparr>"
  | (lone_latch) i l r where "i < length (pollers s)" "i < length (all_tokens cfg)"
      "pollers s ! i = AwaitMembership l" "leave_targets cfg (label cfg i) = []"
      "s' = s\<lparr>monitoring_active := False, pollers := (pollers s)[i := Returned (Some r)],
              trace := Latch i # BanDetected i # trace s\<rparr>"
  | (latch) i l targets r where "i < length (pollers s)" "i < length (all_tokens cfg)"
      "pollers s ! i = AwaitLeaves l targets"
      "s' = s\<lparr>monitoring_active := False, pollers := (pollers s)[i := Returned (Some r)],
              trace := Latch i # trace s\<rparr>"
  | (crash) i l targets where "i < length (pollers s)" "i < length (all_tokens cfg)"
      "pollers s ! i = AwaitLeaves l targets"
      "s' = s\<lparr>pollers := (pollers s)[i := Crashed]\<rparr>"
proof (cases a)
  case (Run i)
  with assms have b: "i < length (pollers s)" "i < length (all_tokens cfg)"
    by (auto split: if_splits)
  show ?thesis
  proof (cases "pollers s ! i")
    case NotStarted
    with assms Run b have s': "s' = enter cfg i (label cfg i) s" by (simp add: label_def)
    show ?thesis
    proof (cases "initially_in_server cfg (label cfg i)")
      case False
      with s' have "s' = s\<lparr>pollers := (pollers s)[i := Returned None], trace := SkipLogged i # trace s\<rparr>"
        by (auto simp: enter_def initially_in_server_def split: option.splits)
      with b NotStarted False show ?thesis by (rule skip)
    next
      case True
      then obtain m where m: "initial_status cfg (label cfg i) = Some m" "in_server m"
        by (auto simp: initially_in_server_def split: option.splits)
      let ?l = "\<lparr>last_status = m, status_messages = Map.empty, exit_success = Map.empty\<rparr>"
      from s' m have s'': "s' = loop_top i ?l s" by (simp add: enter_def)
      show ?thesis
      proof (cases "monitoring_active s")
        case True
        with s'' have "s' = s\<lparr>pollers := (pollers s)[i := AwaitMembership ?l], trace := MembershipQuery i # trace s\<rparr>"
          by (simp add: loop_top_def)
        with b NotStarted \<open>initially_in_server cfg (label cfg i)\<close> True show ?thesis
          by (intro poll[of i ?l]) auto
      next
        case False
        with s'' have "s' = s\<lparr>pollers := (pollers s)[i := Returned (Some (exit_success ?l))]\<rparr>"
          by (simp add: loop_top_def)
        with b NotStarted \<open>initially_in_server cfg (label cfg i)\<close> False show ?thesis
          by (intro stop[of i ?l]) auto
      qed
    qed
  next
    case (Sleeping l)
    with assms Run b have s': "s' = loop_top i l s" by simp
    show ?thesis
    proof (cases "monitoring_active s")
      case True
      with s' b Sleeping show ?thesis by (intro poll[of i l]) (auto simp: loop_top_def)
    next
      case False
      with s' b Sleeping show ?thesis by (intro stop[of i l]) (auto simp: loop_top_def)
    qed
  qed (use assms Run b in auto)
next
  case (MembershipDone i rs)
  with assms have b: "i < length (pollers s)" "i < length (all_tokens cfg)"
    by (auto split: if_splits)
  from assms MembershipDone b obtain l status where
    p: "pollers s ! i = AwaitMembership l" and s': "s' = loop_body cfg i (label cfg i) status l s"
    by (auto simp: label_def split: poller.splits option.splits)
  show ?thesis
  proof (cases "status \<noteq> last_status l \<and> valid status \<and> \<not> in_server status \<and> in_server (last_status l)")
    case True
    with s' have s'': "s' = ban cfg i (label cfg i) l s" by (auto simp: loop_body_def)
    show ?thesis
    proof (cases "leave_targets cfg (label cfg i) = []")
      case True
      with s'' b p show ?thesis by (intro lone_latch[of i l]) (auto simp: ban_def Let_def)
    next
      case False
      with s'' b p show ?thesis by (intro fanout[of i l]) (auto simp: ban_def Let_def)
    qed
  next
    case False
    show ?thesis
    proof (cases "status = last_status l")
      case True
      with s' have "s' = s\<lparr>pollers := (pollers s)[i := Sleeping l],
              trace := Display i (status_display cfg (label cfg i) status l) # trace s\<rparr>"
        by (simp add: loop_body_def render_def)
      with b p show ?thesis by (intro render[of i l l status]) auto
    next
      case changed: False
      show ?thesis
      proof (cases "valid status")
        case True
        with s' changed False
        have "s' = s\<lparr>pollers := (pollers s)[i := Sleeping (l\<lparr>last_status := status\<rparr>)],
              trace := Display i (status_display cfg (label cfg i) status (l\<lparr>last_status := status\<rparr>))
                        # trace s\<rparr>"
          by (auto simp: loop_body_def render_def)
        with b p show ?thesis by (intro render[of i l "l\<lparr>last_status := status\<rparr>" status]) auto
      next
        case False
        let ?l = "l\<lparr>status_messages := (status_messages l)(label cfg i \<mapsto> ''Token tidak valid''),
                  last_status := status\<rparr>"
        from s' changed False
        have "s' = s\<lparr>pollers := (pollers s)[i := Sleeping ?l],
              trace := Display i (status_display cfg (label cfg i) status ?l) # trace s\<rparr>"
          by (auto simp: loop_body_def render_def)
        with b p show ?thesis by (intro render[of i l ?l status]) auto
      qed
    qed
  qed
next
  case (LeavesDone i rss)
  with assms have b: "i < length (pollers s)" "i < length (all_tokens cfg)"
    by (auto split: if_splits)
  from assms LeavesDone b obtain l targets results where
    p: "pollers s ! i = AwaitLeaves l targets" and s': "s' = after_gather cfg i l results s"
    by (auto split: poller.splits option.splits if_splits)
  show ?thesis
  proof (cases "record_results (map fst (all_tokens cfg)) 0 results l")
    case None
    with s' b p show ?thesis by (intro crash[of i l targets]) (auto simp: after_gather_def)
  next
    case (Some l')
    with s' b p show ?thesis by (intro latch[of i l targets]) (auto simp: after_gather_def)
  qed
qed

lemma run_invariant:
  assumes "run cfg sch s = Some s'" and "P s"
    and "\<And>a s s'. P s \<Longrightarrow> step cfg a s = Some s' \<Longrightarrow> P s'"
  shows "P s'"
  using assms(1,2)
proof (induction sch arbitrary: s)
  case Nil
  then show ?case by simp
next
  case (Cons a sch)
  then show ?case by (auto split: option.splits intro: assms(3))
qed




lemma run_trace_SomeD: "map_option trace r = Some t \<Longrightarrow> \<exists>s. r = Some s \<and> trace s = t"
  by (cases r) auto

subsection \<open>Skipped credentials\<close>

lemma skipped_step:
  assumes skip: "\<not> initially_in_server cfg (label cfg i)"
    and P: "(pollers s ! i = NotStarted \<or> pollers s ! i = Returned None) \<and>
            (\<forall>e\<in>set (trace s). actor e = i \<longrightarrow> e = SkipLogged i)"
    and st: "step cfg a s = Some s'"
  shows "(pollers s' ! i = NotStarted \<or> pollers s' ! i = Returned None) \<and>
         (\<forall>e\<in>set (trace s'). actor e = i \<longrightarrow> e = SkipLogged i)"
  using st
proof (cases rule: step_cases)
  case (skip j)
  with P show ?thesis by (cases "j = i") (auto simp: nth_list_update)
next
  case (poll j l)
  with P skip show ?thesis by (cases "j = i") (auto simp: nth_list_update)
next
  case (stop j l)
  with P skip show ?thesis by (cases "j = i") (auto simp: nth_list_update)
next
  case (render j l status l')
  with P show ?thesis by (cases "j = i") (auto simp: nth_list_update)
next
  case (fanout j l l')
  with P show ?thesis by (cases "j = i") (auto simp: nth_list_update)
next
  case (lone_latch j l r)
  with P show ?thesis by (cases "j = i") (auto simp: nth_list_update)
next
  case (latch j l targets r)
  with P show ?thesis by (cases "j = i") (auto simp: nth_list_update)
next
  case (crash j l targets)
  with P show ?thesis by (cases "j = i") (auto simp: nth_list_update)
qed

lemma length_pollers_step: "step cfg a s = Some s' \<Longrightarrow> length (pollers s') = length (pollers s)"
  by (cases rule: step_cases) auto

lemma length_pollers_run:
  "run cfg sch (init cfg) = Some s \<Longrightarrow> length (pollers s) = length (all_tokens cfg)"
proof -
  assume r: "run cfg sch (init cfg) = Some s"
  show ?thesis
    by (rule run_invariant[OF r, where P = "\<lambda>s. length (pollers s) = length (all_tokens cfg)"])
       (auto simp: init_def length_pollers_step)
qed

text \<open>
  \<^bold>\<open>C6.\<close> A task whose credential is not in the server in \<^verbatim>\<open>initial_status\<close> returns at
  its first step, before the loop: in every run it is not started or has returned
  \<^verbatim>\<open>None\<close>, the only effect it ever has is the log line of the skip (no membership check,
  no leave call, no table), and from "not started" its one step is that return.
\<close>

theorem skipped_credential_never_polls:
  assumes "run cfg sch (init cfg) = Some s" "i < length (all_tokens cfg)"
    "\<not> initially_in_server cfg (label cfg i)"
  shows "(pollers s ! i = NotStarted \<or> pollers s ! i = Returned None) \<and>
         (\<forall>e\<in>set (trace s). actor e = i \<longrightarrow> e = SkipLogged i) \<and>
         (pollers s ! i = NotStarted \<longrightarrow>
            (\<exists>s'. step cfg (Run i) s = Some s' \<and> pollers s' ! i = Returned None \<and>
                  trace s' = SkipLogged i # trace s))"
proof -
  have inv: "(pollers s ! i = NotStarted \<or> pollers s ! i = Returned None) \<and>
         (\<forall>e\<in>set (trace s). actor e = i \<longrightarrow> e = SkipLogged i)"
  proof (rule run_invariant[OF assms(1)])
    show "(pollers (init cfg) ! i = NotStarted \<or> pollers (init cfg) ! i = Returned None) \<and>
         (\<forall>e\<in>set (trace (init cfg)). actor e = i \<longrightarrow> e = SkipLogged i)"
      using assms(2) by (simp add: init_def)
  next
    fix a s s'
    assume "(pollers s ! i = NotStarted \<or> pollers s ! i = Returned None) \<and>
         (\<forall>e\<in>set (trace s). actor e = i \<longrightarrow> e = SkipLogged i)" "step cfg a s = Some s'"
    with assms(3) show "(pollers s' ! i = NotStarted \<or> pollers s' ! i = Returned None) \<and>
         (\<forall>e\<in>set (trace s'). actor e = i \<longrightarrow> e = SkipLogged i)"
      by (rule skipped_step)
  qed
  have len: "i < length (pollers s)"
    using length_pollers_run[OF assms(1)] assms(2) by simp
  have "pollers s ! i = NotStarted \<longrightarrow>
            (\<exists>s'. step cfg (Run i) s = Some s' \<and> pollers s' ! i = Returned None \<and>
                  trace s' = SkipLogged i # trace s)"
    using assms(2,3) len
    by (auto simp: enter_def initially_in_server_def label_def split: option.splits)
  with inv show ?thesis by blast
qed


theorem skipped_credential_never_polls_witness:
  "map_option trace
      (run scenario [Run 0, Run 2, MembershipDone 0 removed, LeavesDone 0 [left]] (init scenario))
     = Some [Latch 0, LeaveCall 0 ''B'' True, BanDetected 0, SkipLogged 2, MembershipQuery 0]
   \<and> 2 < length (all_tokens scenario)
   \<and> \<not> initially_in_server scenario (label scenario 2)
   \<and> (case run scenario [Run 0, Run 2, MembershipDone 0 removed, LeavesDone 0 [left]] (init scenario) of
         None \<Rightarrow> False
       | Some s \<Rightarrow> pollers s ! 2 = NotStarted \<or> pollers s ! 2 = Returned None)"
proof -
  let ?sch = "[Run 0, Run 2, MembershipDone 0 removed, LeavesDone 0 [left]]"
  have tr: "map_option trace (run scenario ?sch (init scenario))
     = Some [Latch 0, LeaveCall 0 ''B'' True, BanDetected 0, SkipLogged 2, MembershipQuery 0]"
    by code_simp
  from run_trace_SomeD[OF tr] obtain s where r: "run scenario ?sch (init scenario) = Some s"
    by blast
  have i: "2 < length (all_tokens scenario)" by code_simp
  have a: "\<not> initially_in_server scenario (label scenario 2)" by code_simp
  from skipped_credential_never_polls[OF r i a]
  have "pollers s ! 2 = NotStarted \<or> pollers s ! 2 = Returned None" by blast
  then have c: "case run scenario ?sch (init scenario) of
         None \<Rightarrow> False
       | Some s \<Rightarrow> pollers s ! 2 = NotStarted \<or> pollers s ! 2 = Returned None"
    by (simp only: r option.case)
  from tr i a c show ?thesis by (intro conjI)
qed

subsection \<open>The fan-out\<close>










subsection \<open>The flag and the leave calls\<close>

text \<open>
  \<^bold>\<open>C2\<close> fails as stated: the ban branch creates the leave calls and awaits their gather
  first, and assigns \<^verbatim>\<open>monitoring_active[0] = False\<close> after the gather has returned. Here
  the task of A has made the leave call for B and waits for it; the flag is still true.
\<close>

theorem leave_issued_while_active:
  "map_option trace (run scenario [Run 0, MembershipDone 0 removed] (init scenario))
     = Some [LeaveCall 0 ''B'' True, BanDetected 0, MembershipQuery 0]
   \<and> map_option monitoring_active (run scenario [Run 0, MembershipDone 0 removed] (init scenario))
     = Some True"
  by code_simp

lemma latched_fanout: "latched (map (\<lambda>n. LeaveCall i n b) ns @ es) = latched es"
  by (induction ns) auto

lemma stamped_fanout:
  "stamped (map (\<lambda>n. LeaveCall i n b) ns @ es) = ((ns \<noteq> [] \<longrightarrow> b = (\<not> latched es)) \<and> stamped es)"
  by (induction ns) (auto simp: latched_fanout)

lemma latch_last_fanout:
  "latch_last (map (\<lambda>n. LeaveCall i n b) ns @ es) = ((ns \<noteq> [] \<longrightarrow> Latch i \<notin> set es) \<and> latch_last es)"
  by (induction ns) auto

lemma stamped_split:
  "stamped tr \<Longrightarrow> tr = later @ LeaveCall i n b # earlier \<Longrightarrow> b = (\<not> latched earlier)"
proof (induction later arbitrary: tr)
  case Nil
  then show ?case by simp
next
  case (Cons e later)
  from Cons.prems have "stamped (later @ LeaveCall i n b # earlier)"
    by (cases e) auto
  from Cons.IH[OF this] show ?case by simp
qed

lemma latch_last_split:
  "latch_last tr \<Longrightarrow> tr = later @ Latch i # earlier \<Longrightarrow> LeaveCall i n b \<notin> set later"
proof (induction later arbitrary: tr)
  case Nil
  then show ?case by simp
next
  case (Cons e later)
  from Cons.prems have "latch_last (later @ Latch i # earlier)"
    by (cases e) auto
  from Cons.IH[OF this] Cons.prems show ?case by (cases e) auto
qed

lemma latch_inv_step:
  assumes "latch_inv s" "step cfg a s = Some s'"
  shows "latch_inv s'"
  using assms(2)
proof (cases rule: step_cases)
  case (skip i)
  with assms(1) show ?thesis by (auto simp: latch_inv_def nth_list_update)
next
  case (poll i l)
  with assms(1) show ?thesis by (auto simp: latch_inv_def nth_list_update)
next
  case (stop i l)
  with assms(1) show ?thesis by (auto simp: latch_inv_def nth_list_update)
next
  case (render i l status l')
  with assms(1) show ?thesis by (auto simp: latch_inv_def nth_list_update)
next
  case (fanout i l l')
  from assms(1) fanout(3) have nl: "Latch i \<notin> set (trace s)"
    by (auto simp: latch_inv_def)
  from assms(1) fanout nl show ?thesis
    by (auto simp: latch_inv_def nth_list_update rev_map stamped_fanout latch_last_fanout latched_fanout)
next
  case (lone_latch i l r)
  with assms(1) show ?thesis by (auto simp: latch_inv_def nth_list_update)
next
  case (latch i l targets r)
  with assms(1) show ?thesis by (auto simp: latch_inv_def nth_list_update)
next
  case (crash i l targets)
  with assms(1) show ?thesis by (auto simp: latch_inv_def nth_list_update)
qed

text \<open>
  \<^bold>\<open>C2, as the code has it.\<close> In every run the flag is true until the first assignment
  and false from then on. Every leave call is made under the flag as it then stands: true
  unless some task has already cleared it. And a task clears the flag after its own leave
  calls only: none of its leave calls follows its assignment. So the leave calls of the
  first task to detect a ban are all made while the flag is true, and a leave call is
  made under a false flag only when another task had cleared it before (the flag is read
  at the loop condition only, not in the ban branch).
\<close>

theorem latch_follows_fanout:
  assumes "run cfg sch (init cfg) = Some s"
  shows "monitoring_active s = (\<not> latched (trace s)) \<and>
     (\<forall>later i n b earlier. trace s = later @ LeaveCall i n b # earlier \<longrightarrow> b = (\<not> latched earlier)) \<and>
     (\<forall>later i earlier. trace s = later @ Latch i # earlier \<longrightarrow> (\<forall>n b. LeaveCall i n b \<notin> set later))"
proof -
  have "latch_inv s"
  proof (rule run_invariant[OF assms])
    show "latch_inv (init cfg)" by (simp add: init_def latch_inv_def)
  next
    fix a s s'
    assume "latch_inv s" "step cfg a s = Some s'"
    then show "latch_inv s'" by (rule latch_inv_step)
  qed
  then show ?thesis
    unfolding latch_inv_def by (blast dest: stamped_split latch_last_split)
qed


text \<open>Both tasks have a check in flight when A's returns; B's own check then reports B
  gone (it has left), and B makes its leave call for A under the flag A has cleared.\<close>

theorem latch_follows_fanout_witness:
  "map_option trace
      (run scenario
         [Run 0, Run 1, MembershipDone 0 removed, LeavesDone 0 [left],
          MembershipDone 1 removed, LeavesDone 1 [left]]
         (init scenario))
     = Some ([Latch 1] @ LeaveCall 1 ''A'' False #
             [BanDetected 1, Latch 0, LeaveCall 0 ''B'' True, BanDetected 0,
              MembershipQuery 1, MembershipQuery 0])
   \<and> False = (\<not> latched [BanDetected 1, Latch 0, LeaveCall 0 ''B'' True, BanDetected 0,
                            MembershipQuery 1, MembershipQuery 0])
   \<and> (case run scenario
         [Run 0, Run 1, MembershipDone 0 removed, LeavesDone 0 [left],
          MembershipDone 1 removed, LeavesDone 1 [left]]
         (init scenario) of
         None \<Rightarrow> False
       | Some s \<Rightarrow> monitoring_active s = (\<not> latched (trace s)))"
proof -
  let ?sch = "[Run 0, Run 1, MembershipDone 0 removed, LeavesDone 0 [left],
          MembershipDone 1 removed, LeavesDone 1 [left]]"
  let ?earlier = "[BanDetected 1, Latch 0, LeaveCall 0 ''B'' True, BanDetected 0,
              MembershipQuery 1, MembershipQuery 0]"
  have tr: "map_option trace (run scenario ?sch (init scenario))
     = Some ([Latch 1] @ LeaveCall 1 ''A'' False # ?earlier)"
    by code_simp
  from run_trace_SomeD[OF tr] obtain s where r: "run scenario ?sch (init scenario) = Some s"
    and t: "trace s = [Latch 1] @ LeaveCall 1 ''A'' False # ?earlier"
    by blast
  note inst = latch_follows_fanout[OF r]
  from inst have flag: "monitoring_active s = (\<not> latched (trace s))" by (rule conjunct1)
  note stamps = inst[THEN conjunct2, THEN conjunct1, rule_format]
  from stamps[OF t] have stamp: "False = (\<not> latched ?earlier)" .
  from flag have c: "case run scenario ?sch (init scenario) of
         None \<Rightarrow> False
       | Some s \<Rightarrow> monitoring_active s = (\<not> latched (trace s))"
    by (simp only: r option.case)
  from tr stamp c show ?thesis by (intro conjI)
qed

subsection \<open>What a table shows\<close>












subsection \<open>The exit-success dict\<close>

text \<open>
  \<^bold>\<open>C1\<close> is what the code means to do and misses. The results of the gather are in the
  order of \<^verbatim>\<open>leave_tasks\<close>, which holds the other credentials that were in the server,
  but result \<open>i\<close> is recorded under \<^verbatim>\<open>[n for n, _ in all_tokens][i]\<close>, the \<open>i\<close>-th label of
  all credentials. In the scenario of the specification the leave call made is the one
  for B, it succeeds, and the exit success is recorded for A, the detecting credential;
  B is not recorded. With C first in the list it is recorded for C, which was never in
  the server.
\<close>

theorem exit_success_under_wrong_label:
  "(case run scenario [Run 0, MembershipDone 0 removed, LeavesDone 0 [left]] (init scenario) of
      None \<Rightarrow> False
    | Some s \<Rightarrow>
        leave_calls (trace s) = [''B'']
        \<and> (case pollers s ! 0 of
             Returned (Some exits) \<Rightarrow>
               exits ''A'' = Some True \<and> exits ''B'' = None \<and> exits ''C'' = None
           | _ \<Rightarrow> False))
   \<and> (case run scenario_C_first [Run 1, MembershipDone 1 removed, LeavesDone 1 [left]]
           (init scenario_C_first) of
      None \<Rightarrow> False
    | Some s \<Rightarrow>
        leave_calls (trace s) = [''B'']
        \<and> (case pollers s ! 1 of
             Returned (Some exits) \<Rightarrow>
               exits ''C'' = Some True \<and> exits ''A'' = None \<and> exits ''B'' = None
           | _ \<Rightarrow> False))"
  by code_simp


end
